theory Spec2Isabelle
  imports Main
begin

section \<open>Log tail engine of the log monitoring service (\<^verbatim>\<open>src/app.py\<close>)\<close>

text \<open>
  The two readers of \<^verbatim>\<open>app.py\<close>, \<^verbatim>\<open>read_last_n_lines_efficient\<close> (eager) and
  \<^verbatim>\<open>read_last_n_lines_streaming\<close> (generator), are embedded as HOL functions.
  A Python \<^verbatim>\<open>bytes\<close> value is a list of 8-bit characters, a \<^verbatim>\<open>str\<close> is a
  \<open>string\<close>. The module constants \<^verbatim>\<open>CHUNK_SIZE\<close> and \<^verbatim>\<open>MAX_FILE_SIZE\<close> are the
  fields of a configuration record; \<open>default_config\<close> holds the values of the source.
  The three methods of the Python runtime that the code calls on text
  (\<^verbatim>\<open>bytes.decode('utf-8', errors='ignore')\<close>, \<^verbatim>\<open>str.strip()\<close>, \<^verbatim>\<open>str.lower()\<close>) are
  the fields of the record \<open>pylib\<close>: every theorem holds for any such functions, and
  \<open>ascii_py\<close> is the instance used to evaluate the code on ASCII files.
  The number of lines \<open>n\<close> is a natural number: the two handlers pass \<^verbatim>\<open>entries\<close>, which
  they bound by \<^verbatim>\<open>ge=1, le=10000\<close>.
\<close>

subsection \<open>Data\<close>

type_synonym bytes = "char list"

definition nl :: char where
  "nl = CHR 0x0A"

definition cr :: char where
  "cr = CHR 0x0D"

record pylib =
  decode :: "bytes \<Rightarrow> string"
  strip :: "string \<Rightarrow> string"
  lower :: "string \<Rightarrow> string"

record config =
  CHUNK_SIZE :: nat
  MAX_FILE_SIZE :: nat

definition default_config :: config where
  "default_config = \<lparr>CHUNK_SIZE = 8192, MAX_FILE_SIZE = 4 * 1024 * 1024 * 1024\<rparr>"

text \<open>
  What \<^verbatim>\<open>filepath\<close> names: nothing, a directory (with the size \<^verbatim>\<open>stat\<close> reports for
  it) or a regular file with its content.
\<close>

datatype fsobj = Absent | Directory nat | Regular bytes

datatype error = FileNotFoundError | ValueError | IsADirectoryError

fun exists_path :: "fsobj \<Rightarrow> bool" where
  "exists_path Absent = False"
| "exists_path (Directory d) = True"
| "exists_path (Regular bs) = True"

fun st_size :: "fsobj \<Rightarrow> nat" where
  "st_size Absent = 0"
| "st_size (Directory d) = d"
| "st_size (Regular bs) = length bs"

text \<open>
  The reads a call makes on the opened file, in order: \<open>(position, size)\<close> is
  \<^verbatim>\<open>seek(position); read(size)\<close>.
\<close>

type_synonym io_log = "(nat \<times> nat) list"

subsection \<open>Python primitives on sequences\<close>

text \<open>\<^verbatim>\<open>needle in haystack\<close> on \<^verbatim>\<open>str\<close>: contiguous substring.\<close>

fun str_in :: "string \<Rightarrow> string \<Rightarrow> bool" where
  "str_in k [] = (k = [])"
| "str_in k (c # cs) = (take (length k) (c # cs) = k \<or> str_in k cs)"

text \<open>\<^verbatim>\<open>buffer.rfind(b'\n')\<close>: the index of the last occurrence, \<open>-1\<close> when there is none.\<close>

fun rfind :: "char \<Rightarrow> bytes \<Rightarrow> int" where
  "rfind c [] = -1"
| "rfind c (x # xs) =
     (let r = rfind c xs in
      if r \<noteq> -1 then r + 1 else if x = c then 0 else -1)"

text \<open>\<^verbatim>\<open>chunk.split(b'\n')\<close>: the fragments between separators, at least one.\<close>

fun split :: "char \<Rightarrow> bytes \<Rightarrow> bytes list" where
  "split c [] = [[]]"
| "split c (x # xs) =
     (if x = c then [] # split c xs
      else (case split c xs of [] \<Rightarrow> [[x]] | l # ls \<Rightarrow> (x # l) # ls))"

text \<open>\<^verbatim>\<open>xs[-n:]\<close> for \<open>n \<ge> 0\<close>: the last \<open>n\<close> elements, and the whole list when \<open>n = 0\<close>.\<close>

definition last_n :: "nat \<Rightarrow> 'a list \<Rightarrow> 'a list" where
  "last_n n xs = (if n = 0 then xs else drop (length xs - n) xs)"

text \<open>
  Text mode (\<^verbatim>\<open>open(filepath, 'r', ...)\<close>, universal newlines): \<^verbatim>\<open>\r\n\<close> and \<^verbatim>\<open>\r\<close> are
  read as \<^verbatim>\<open>\n\<close>, and \<^verbatim>\<open>readlines()\<close> cuts after each \<^verbatim>\<open>\n\<close>, keeping it.
\<close>

fun universal_newlines :: "string \<Rightarrow> string" where
  "universal_newlines [] = []"
| "universal_newlines [c] = (if c = cr then [nl] else [c])"
| "universal_newlines (c # d # ds) =
     (if c = cr \<and> d = nl then nl # universal_newlines ds
      else if c = cr then nl # universal_newlines (d # ds)
      else c # universal_newlines (d # ds))"

fun readlines :: "string \<Rightarrow> string list" where
  "readlines [] = []"
| "readlines (c # cs) =
     (if c = nl then [c] # readlines cs
      else (case readlines cs of [] \<Rightarrow> [[c]] | l # ls \<Rightarrow> (c # l) # ls))"

text \<open>\<^verbatim>\<open>keyword is None or keyword.lower() in decoded_line.lower()\<close>\<close>

definition keyword_ok :: "pylib \<Rightarrow> string option \<Rightarrow> string \<Rightarrow> bool" where
  "keyword_ok py keyword decoded_line =
     (case keyword of None \<Rightarrow> True
      | Some k \<Rightarrow> str_in (lower py k) (lower py decoded_line))"

subsection \<open>The eager reader\<close>

text \<open>
  The inner loop \<^verbatim>\<open>while b'\n' in buffer\<close> of the general path. \<open>Inl\<close> is the
  \<^verbatim>\<open>return lines\<close> inside the loop, \<open>Inr\<close> the state when the loop ends. The branch
  \<^verbatim>\<open>line_end == -1\<close> leaves the buffer as it is and so would repeat for ever; not
  returning is the value \<open>None\<close>.
\<close>

partial_function (option) find_lines ::
  "pylib \<Rightarrow> nat \<Rightarrow> string option \<Rightarrow> bytes \<Rightarrow> string list \<Rightarrow> nat
    \<Rightarrow> (string list + bytes \<times> string list \<times> nat) option" where
  "find_lines py n keyword buffer lines lines_found =
     (if nl \<in> set buffer then
        (let line_end = rfind nl buffer in
         if line_end \<noteq> -1 then
           (let line = drop (nat (line_end + 1)) buffer;
                buffer' = take (nat line_end) buffer in
            if line \<noteq> [] then
              (let decoded_line = strip py (decode py line) in
               if decoded_line \<noteq> [] then
                 (if keyword_ok py keyword decoded_line then
                    (let lines' = lines @ [decoded_line];
                         lines_found' = lines_found + 1 in
                     if lines_found' \<ge> n then Some (Inl lines')
                     else find_lines py n keyword buffer' lines' lines_found')
                  else find_lines py n keyword buffer' lines lines_found)
               else find_lines py n keyword buffer' lines lines_found)
            else find_lines py n keyword buffer' lines lines_found)
         else find_lines py n keyword buffer lines lines_found)
      else Some (Inr (buffer, lines, lines_found)))"

text \<open>\<^verbatim>\<open># Handle remaining buffer\<close>, followed by \<^verbatim>\<open>return lines[:n]\<close>.\<close>

definition remaining_buffer ::
  "pylib \<Rightarrow> nat \<Rightarrow> string option \<Rightarrow> bytes \<Rightarrow> string list \<Rightarrow> nat \<Rightarrow> string list" where
  "remaining_buffer py n keyword buffer lines lines_found =
     (let lines' =
        (if buffer \<noteq> [] \<and> lines_found < n then
           (let decoded_line = strip py (decode py buffer) in
            if decoded_line \<noteq> [] then
              (if keyword_ok py keyword decoded_line then lines @ [decoded_line] else lines)
            else lines)
         else lines)
      in take n lines')"

text \<open>
  The outer loop \<^verbatim>\<open>while position > 0 and lines_found < n * 2\<close> over the memory-mapped
  file \<open>mm\<close>, with the reads made so far in \<open>log\<close>.
\<close>

partial_function (option) scan_backward ::
  "pylib \<Rightarrow> config \<Rightarrow> nat \<Rightarrow> string option \<Rightarrow> bytes
    \<Rightarrow> nat \<Rightarrow> bytes \<Rightarrow> string list \<Rightarrow> nat \<Rightarrow> io_log
    \<Rightarrow> (io_log \<times> string list) option" where
  "scan_backward py cfg n keyword mm position buffer lines lines_found log =
     (if position > 0 \<and> lines_found < n * 2 then
        (let chunk_size = min (CHUNK_SIZE cfg) position;
             position' = position - chunk_size;
             chunk = take chunk_size (drop position' mm);
             log' = log @ [(position', chunk_size)];
             buffer' = chunk @ buffer in
         Option.bind (find_lines py n keyword buffer' lines lines_found)
           (\<lambda>r. case r of
               Inl result \<Rightarrow> Some (log', result)
             | Inr (buffer'', lines', lines_found') \<Rightarrow>
                 scan_backward py cfg n keyword mm position' buffer'' lines' lines_found' log'))
      else Some (log, remaining_buffer py n keyword buffer lines lines_found))"

text \<open>
  The fast path for small files: \<^verbatim>\<open>if keyword:\<close> is true for a keyword that is neither
  \<^verbatim>\<open>None\<close> nor empty.
\<close>

definition small_file :: "pylib \<Rightarrow> nat \<Rightarrow> string option \<Rightarrow> bytes \<Rightarrow> string list" where
  "small_file py n keyword content =
     (let all_lines = readlines (universal_newlines (decode py content));
          all_lines' =
            (case keyword of
               None \<Rightarrow> all_lines
             | Some k \<Rightarrow>
                 if k \<noteq> [] then filter (\<lambda>line. str_in (lower py k) (lower py line)) all_lines
                 else all_lines)
      in rev (last_n n all_lines'))"

text \<open>
  \<^verbatim>\<open>read_last_n_lines_efficient\<close>. The result is \<open>None\<close> when the call does not return,
  and otherwise the reads it made together with the exception raised (\<open>Inl\<close>) or the list
  returned (\<open>Inr\<close>). Opening a directory raises \<^verbatim>\<open>IsADirectoryError\<close>.
\<close>

definition read_last_n_lines_efficient ::
  "pylib \<Rightarrow> config \<Rightarrow> fsobj \<Rightarrow> nat \<Rightarrow> string option
    \<Rightarrow> (io_log \<times> (error + string list)) option" where
  "read_last_n_lines_efficient py cfg filepath n keyword =
     (if \<not> exists_path filepath then Some ([], Inl FileNotFoundError)
      else
        (let file_size = st_size filepath in
         if file_size = 0 then Some ([], Inr [])
         else if file_size > MAX_FILE_SIZE cfg then Some ([], Inl ValueError)
         else
           (case filepath of
              Regular content \<Rightarrow>
                if file_size < CHUNK_SIZE cfg * 10 then
                  Some ([(0, file_size)], Inr (small_file py n keyword content))
                else
                  map_option (\<lambda>(log, result). (log, Inr result))
                    (scan_backward py cfg n keyword content file_size [] [] 0 [])
            | _ \<Rightarrow> Some ([], Inl IsADirectoryError))))"

subsection \<open>The streaming reader\<close>

text \<open>
  The inner loop \<^verbatim>\<open>while len(buffer) > 1 and lines_yielded < n\<close>; \<open>out\<close> is the
  sequence of values yielded so far.
\<close>

function yield_lines ::
  "pylib \<Rightarrow> nat \<Rightarrow> string option \<Rightarrow> bytes list \<Rightarrow> nat \<Rightarrow> string list
    \<Rightarrow> bytes list \<times> nat \<times> string list" where
  "yield_lines py n keyword buffer lines_yielded out =
     (if length buffer > 1 \<and> lines_yielded < n then
        (let line = hd buffer;
             buffer' = tl buffer in
         if line \<noteq> [] then
           (let decoded = strip py (decode py line) in
            if decoded \<noteq> [] \<and> keyword_ok py keyword decoded then
              yield_lines py n keyword buffer' (lines_yielded + 1) (out @ [decoded])
            else yield_lines py n keyword buffer' lines_yielded out)
         else yield_lines py n keyword buffer' lines_yielded out)
      else (buffer, lines_yielded, out))"
  by pat_completeness auto
termination
  by (relation "measure (\<lambda>(py, n, keyword, buffer, lines_yielded, out). length buffer)") auto

text \<open>
  \<^verbatim>\<open>if buffer: lines[-1] += buffer.pop(0)\<close> and \<^verbatim>\<open>buffer = lines[::-1] + buffer\<close>.
  \<open>lines\<close> comes from \<open>split\<close> and is never empty.
\<close>

definition push_chunk :: "bytes list \<Rightarrow> bytes list \<Rightarrow> bytes list" where
  "push_chunk lines buffer =
     (case buffer of
        [] \<Rightarrow> rev lines
      | b # bs \<Rightarrow> rev (butlast lines @ [last lines @ b]) @ bs)"

text \<open>The outer loop \<^verbatim>\<open>while position > 0 and lines_yielded < n\<close> on the opened file \<open>f\<close>.\<close>

partial_function (option) stream_backward ::
  "pylib \<Rightarrow> config \<Rightarrow> nat \<Rightarrow> string option \<Rightarrow> bytes
    \<Rightarrow> nat \<Rightarrow> bytes list \<Rightarrow> nat \<Rightarrow> string list \<Rightarrow> io_log
    \<Rightarrow> (io_log \<times> string list) option" where
  "stream_backward py cfg n keyword f position buffer lines_yielded out log =
     (if position > 0 \<and> lines_yielded < n then
        (let chunk_size = min (CHUNK_SIZE cfg) position;
             position' = position - chunk_size;
             chunk = take chunk_size (drop position' f);
             log' = log @ [(position', chunk_size)];
             lines = split nl chunk;
             buffer' = push_chunk lines buffer in
         case yield_lines py n keyword buffer' lines_yielded out of
           (buffer'', lines_yielded', out') \<Rightarrow>
             stream_backward py cfg n keyword f position' buffer'' lines_yielded' out' log')
      else Some (log, out))"

text \<open>
  \<^verbatim>\<open>read_last_n_lines_streaming\<close>, run until the generator is exhausted: the reads made,
  and the exception raised at the first request for a value (\<open>Inl\<close>) or the sequence of
  values yielded (\<open>Inr\<close>).
\<close>

definition read_last_n_lines_streaming ::
  "pylib \<Rightarrow> config \<Rightarrow> fsobj \<Rightarrow> nat \<Rightarrow> string option
    \<Rightarrow> (io_log \<times> (error + string list)) option" where
  "read_last_n_lines_streaming py cfg filepath n keyword =
     (if \<not> exists_path filepath then Some ([], Inl FileNotFoundError)
      else
        (let file_size = st_size filepath in
         if file_size = 0 then Some ([], Inr [])
         else if file_size > MAX_FILE_SIZE cfg then Some ([], Inl ValueError)
         else
           (case filepath of
              Regular content \<Rightarrow>
                map_option (\<lambda>(log, out). (log, Inr out))
                  (stream_backward py cfg n keyword content (length content) [] 0 [] [])
            | _ \<Rightarrow> Some ([], Inl IsADirectoryError))))"

subsection \<open>The runtime on ASCII text\<close>

text \<open>
  An instance of \<open>pylib\<close> that agrees with CPython on ASCII input: decoding keeps the
  bytes below 128, \<^verbatim>\<open>strip\<close> removes ASCII whitespace at both ends, \<^verbatim>\<open>lower\<close> maps
  \<^verbatim>\<open>A-Z\<close> to \<^verbatim>\<open>a-z\<close>.
\<close>

definition is_space :: "char \<Rightarrow> bool" where
  "is_space c = (c \<in> set [CHR 0x20, CHR 0x09, CHR 0x0A, CHR 0x0B, CHR 0x0C, CHR 0x0D,
                           CHR 0x1C, CHR 0x1D, CHR 0x1E, CHR 0x1F])"

definition ascii_decode :: "bytes \<Rightarrow> string" where
  "ascii_decode bs = filter (\<lambda>b. (of_char b :: nat) < 128) bs"

definition ascii_strip :: "string \<Rightarrow> string" where
  "ascii_strip s = rev (dropWhile is_space (rev (dropWhile is_space s)))"

definition ascii_lower_char :: "char \<Rightarrow> char" where
  "ascii_lower_char c =
     (case map_of (zip ''ABCDEFGHIJKLMNOPQRSTUVWXYZ'' ''abcdefghijklmnopqrstuvwxyz'') c of
        Some d \<Rightarrow> d
      | None \<Rightarrow> c)"

definition ascii_py :: pylib where
  "ascii_py = \<lparr>decode = ascii_decode, strip = ascii_strip, lower = map ascii_lower_char\<rparr>"

subsection \<open>Example inputs\<close>

text \<open>
  Two small configurations and two log files, each file at least ten chunks long for its
  configuration, so that the eager reader takes its general path on them.
\<close>

definition cfg_chunk2 :: config where
  "cfg_chunk2 = \<lparr>CHUNK_SIZE = 2, MAX_FILE_SIZE = 1000\<rparr>"

definition cfg_chunk4 :: config where
  "cfg_chunk4 = \<lparr>CHUNK_SIZE = 4, MAX_FILE_SIZE = 1000\<rparr>"

definition log_three_lines :: bytes where
  "log_three_lines = ''info\<newline>Error one\<newline>xERRORy\<newline>''"

definition log_four_lines :: bytes where
  "log_four_lines = ''first line\<newline>second line is long\<newline>third\<newline>4th line end\<newline>''"

section \<open>What the scan is compared with\<close>

text \<open>
  The step every raw line goes through in both readers: a raw line is kept when it is
  not empty, its decoded and stripped text is not empty, and the keyword test passes;
  the text is what is appended or yielded.
\<close>

definition normalize :: "pylib \<Rightarrow> bytes \<Rightarrow> string" where
  "normalize py line = strip py (decode py line)"

definition accepted :: "pylib \<Rightarrow> string option \<Rightarrow> bytes \<Rightarrow> bool" where
  "accepted py keyword line =
     (line \<noteq> [] \<and> normalize py line \<noteq> [] \<and> keyword_ok py keyword (normalize py line))"

definition emitted :: "pylib \<Rightarrow> string option \<Rightarrow> bytes list \<Rightarrow> string list" where
  "emitted py keyword frags = map (normalize py) (filter (accepted py keyword) frags)"

text \<open>
  A log of backward reads from a cursor at \<open>position\<close>: each read happens at a cursor
  above 0, has size \<open>min c position\<close> and leaves the cursor at its own start, where the
  next read ends.
\<close>

fun backward_reads :: "nat \<Rightarrow> nat \<Rightarrow> io_log \<Rightarrow> bool" where
  "backward_reads c position [] = True"
| "backward_reads c position ((p, s) # rest) =
     (0 < position \<and> s = min c position \<and> p = position - s \<and> backward_reads c p rest)"

text \<open>The raw lines of a file with the byte offset at which each starts.\<close>

fun with_offsets :: "nat \<Rightarrow> bytes list \<Rightarrow> (nat \<times> bytes) list" where
  "with_offsets off [] = []"
| "with_offsets off (l # ls) = (off, l) # with_offsets (off + length l + 1) ls"

definition line_spans :: "bytes \<Rightarrow> (nat \<times> bytes) list" where
  "line_spans content = with_offsets 0 (split nl content)"

text \<open>The first \<open>n\<close> accepted lines of a list of lines with offsets.\<close>

definition selected ::
  "pylib \<Rightarrow> nat \<Rightarrow> string option \<Rightarrow> (nat \<times> bytes) list \<Rightarrow> (nat \<times> bytes) list" where
  "selected py n keyword spans = take n (filter (\<lambda>(off, line). accepted py keyword line) spans)"

text \<open>
  The lines the eager reader tests against the keyword, oldest first: on the fast path
  the lines \<^verbatim>\<open>readlines()\<close> returns, on the general path the non-empty normalized text
  of the non-empty raw lines.
\<close>

definition candidate_lines :: "pylib \<Rightarrow> config \<Rightarrow> bytes \<Rightarrow> string list" where
  "candidate_lines py cfg content =
     (if length content < CHUNK_SIZE cfg * 10
      then readlines (universal_newlines (decode py content))
      else filter (\<lambda>l. l \<noteq> [])
             (map (normalize py) (filter (\<lambda>l. l \<noteq> []) (split nl content))))"

text \<open>
  The invariants of one scan over \<open>content\<close> with chunk size \<open>c\<close>, on its read log and on
  the lines \<open>sel\<close> it emits (with their offsets): the reads go backward from the end of
  the file; every read lies inside the file, has the size \<open>min c position\<close> for the
  position it starts from, and is not empty; a later read ends where an earlier one
  begins or before, so no byte is read twice; the emitted lines have strictly decreasing
  offsets and are the bytes of the file at their offset.
\<close>

definition scan_invariants ::
  "nat \<Rightarrow> bytes \<Rightarrow> io_log \<Rightarrow> (nat \<times> bytes) list \<Rightarrow> bool" where
  "scan_invariants c content log sel =
     (backward_reads c (length content) log
      \<and> (\<forall>(p, s) \<in> set log. p + s \<le> length content \<and> s = min c (p + s) \<and> 0 < s)
      \<and> sorted_wrt (\<lambda>(p, s) (p', s'). p' + s' \<le> p) log
      \<and> sorted_wrt (\<lambda>a b. fst b < fst a) sel
      \<and> (\<forall>(off, line) \<in> set sel.
            off + length line \<le> length content \<and> take (length line) (drop off content) = line))"

section \<open>Evaluation on concrete files\<close>

lemmas ascii_eval =
  ascii_py_def ascii_decode_def ascii_strip_def ascii_lower_char_def is_space_def nl_def cr_def

lemmas spec_eval = emitted_def accepted_def normalize_def keyword_ok_def

lemmas example_eval = cfg_chunk2_def cfg_chunk4_def log_three_lines_def log_four_lines_def

declare yield_lines.simps [simp del]

section \<open>Splitting at the delimiter\<close>

lemma split_not_Nil: "split c xs \<noteq> []"
  by (induction xs) (auto split: list.splits)

lemma split_no_sep: "c \<notin> set xs \<Longrightarrow> split c xs = [xs]"
  by (induction xs) auto

lemma hd_split_no_sep: "c \<notin> set (hd (split c xs))"
  by (induction xs) (auto split: list.splits)

lemma split_append_sep: "split c (xs @ c # ys) = split c xs @ split c ys"
  by (induction xs) (auto split: list.splits simp: split_not_Nil)

lemma split_append_carry:
  "split c (xs @ ys) = split c (xs @ hd (split c ys)) @ tl (split c ys)"
proof (induction xs)
  case Nil
  show ?case using split_no_sep [OF hd_split_no_sep, of c ys] split_not_Nil [of c ys]
    by simp
next
  case (Cons x xs)
  then show ?case
    by (auto split: list.splits simp: split_not_Nil)
qed

lemma split_append_last:
  "c \<notin> set b \<Longrightarrow> split c (xs @ b) = butlast (split c xs) @ [last (split c xs) @ b]"
  by (induction xs) (auto split: list.splits simp: split_not_Nil split_no_sep)

lemma rfind_last_sep:
  "c \<in> set b \<Longrightarrow> \<exists>xs ys. b = xs @ c # ys \<and> c \<notin> set ys \<and> rfind c b = int (length xs)"
proof (induction b)
  case Nil
  then show ?case by simp
next
  case (Cons x b)
  show ?case
  proof (cases "c \<in> set b")
    case True
    with Cons.IH obtain xs ys where "b = xs @ c # ys" "c \<notin> set ys" "rfind c b = int (length xs)"
      by blast
    then have "x # b = (x # xs) @ c # ys \<and> c \<notin> set ys \<and> rfind c (x # b) = int (length (x # xs))"
      by (simp add: Let_def)
    then show ?thesis by blast
  next
    case False
    then have r: "rfind c b = -1" by (induction b) (auto simp: Let_def)
    from False Cons.prems have "x = c" by simp
    with False r have "x # b = [] @ c # b \<and> c \<notin> set b \<and> rfind c (x # b) = int (length ([]::bytes))"
      by (simp add: Let_def)
    then show ?thesis by blast
  qed
qed

section \<open>The scan of the eager reader\<close>

lemma emitted_append: "emitted py kw (xs @ ys) = emitted py kw xs @ emitted py kw ys"
  by (simp add: emitted_def)

lemma emitted_Nil: "emitted py kw [] = []"
  by (simp add: emitted_def)

lemma emitted_Cons:
  "emitted py kw (x # xs) = (if accepted py kw x then [normalize py x] else []) @ emitted py kw xs"
  by (simp add: emitted_def)

lemma rfind_absent: "c \<notin> set ys \<Longrightarrow> rfind c ys = -1"
  by (induction ys) (auto simp: Let_def)

lemma rfind_append: "c \<notin> set ys \<Longrightarrow> rfind c (xs @ c # ys) = int (length xs)"
  by (induction xs) (auto simp: Let_def rfind_absent)

lemma find_lines_step:
  assumes "nl \<notin> set ys"
  shows "find_lines py n kw (xs @ nl # ys) lines found =
     (if accepted py kw ys then
        (if n \<le> found + 1 then Some (Inl (lines @ [normalize py ys]))
         else find_lines py n kw xs (lines @ [normalize py ys]) (found + 1))
      else find_lines py n kw xs lines found)"
proof -
  have r: "rfind nl (xs @ nl # ys) = int (length xs)"
    using assms by (rule rfind_append)
  have n1: "nat (int (length xs) + 1) = Suc (length xs)" by simp
  show ?thesis
    apply (subst find_lines.simps)
    apply (simp only: r n1 Let_def nat_int)
    apply (simp add: accepted_def normalize_def)
    done
qed

lemma find_lines_result:
  assumes "length acc < n"
  shows "find_lines py n kw b acc (length acc) =
     Some (let new = emitted py kw (rev (tl (split nl b))) in
           if n \<le> length acc + length new then Inl (take n (acc @ new))
           else Inr (hd (split nl b), acc @ new, length acc + length new))"
  using assms
proof (induction b arbitrary: acc rule: length_induct)
  case (1 b)
  show ?case
  proof (cases "nl \<in> set b")
    case False
    then show ?thesis using "1.prems"
      by (subst find_lines.simps) (simp add: split_no_sep emitted_Nil Let_def)
  next
    case True
    then obtain xs ys where b: "b = xs @ nl # ys" and ys: "nl \<notin> set ys"
      using rfind_last_sep by blast
    have sp: "split nl b = split nl xs @ [ys]"
      using ys by (simp add: b split_append_sep split_no_sep)
    have tl_sp: "rev (tl (split nl b)) = ys # rev (tl (split nl xs))"
      using split_not_Nil [of nl xs] by (simp add: sp)
    have hd_sp: "hd (split nl b) = hd (split nl xs)"
      using split_not_Nil [of nl xs] by (simp add: sp)
    have len: "length xs < length b" by (simp add: b)
    note IH = "1.IH" [rule_format, OF len]
    note step = find_lines_step [OF ys, of py n kw xs acc "length acc", folded b]
    show ?thesis
    proof (cases "accepted py kw ys")
      case False
      then show ?thesis
        using IH [OF "1.prems"] by (simp add: step tl_sp hd_sp emitted_Cons Let_def)
    next
      case acc: True
      show ?thesis
      proof (cases "n \<le> length acc + 1")
        case True
        then have "find_lines py n kw b acc (length acc) = Some (Inl (acc @ [normalize py ys]))"
          using acc by (simp add: step)
        moreover from True "1.prems" have "n - length acc = Suc 0" by simp
        ultimately show ?thesis
          using acc True by (simp add: tl_sp emitted_Cons Let_def)
      next
        case False
        then have "length (acc @ [normalize py ys]) < n" by simp
        from IH [OF this] show ?thesis
          using acc False by (simp add: step tl_sp hd_sp emitted_Cons Let_def)
      qed
    qed
  qed
qed

lemma scan_backward_step:
  assumes "0 < p" "length acc < n"
  shows "scan_backward py cfg n kw mm p b acc (length acc) log =
     (let s = min (CHUNK_SIZE cfg) p;
          chunk = take s (drop (p - s) mm);
          new = emitted py kw (rev (tl (split nl (chunk @ b))))
      in if n \<le> length acc + length new
         then Some (log @ [(p - s, s)], take n (acc @ new))
         else scan_backward py cfg n kw mm (p - s) (hd (split nl (chunk @ b))) (acc @ new)
                (length (acc @ new)) (log @ [(p - s, s)]))"
  using assms
  by (subst scan_backward.simps) (simp add: Let_def find_lines_result)

lemma scan_backward_stop:
  assumes "nl \<notin> set b" "length acc < n"
  shows "scan_backward py cfg n kw mm 0 b acc (length acc) log =
     Some (log, take n (acc @ emitted py kw (rev (split nl b))))"
  using assms
  by (subst scan_backward.simps)
     (simp add: remaining_buffer_def split_no_sep emitted_Cons emitted_Nil accepted_def
        normalize_def Let_def)

lemma scan_backward_result:
  assumes "0 < CHUNK_SIZE cfg" "length acc < n" "nl \<notin> set b"
  shows "\<exists>rs. scan_backward py cfg n kw mm p b acc (length acc) log
           = Some (log @ rs, take n (acc @ emitted py kw (rev (split nl (take p mm @ b)))))
         \<and> backward_reads (CHUNK_SIZE cfg) p rs"
  using assms(2,3)
proof (induction p arbitrary: b acc log rule: less_induct)
  case (less p)
  show ?case
  proof (cases "p = 0")
    case True
    then show ?thesis
      using scan_backward_stop [OF less.prems(2,1), of py cfg kw mm log]
      by (intro exI [of _ "[]"]) simp
  next
    case False
    define s where "s = min (CHUNK_SIZE cfg) p"
    define chunk where "chunk = take s (drop (p - s) mm)"
    define S where "S = split nl (chunk @ b)"
    define new where "new = emitted py kw (rev (tl S))"
    have s: "0 < s" "s \<le> p" using False assms(1) by (simp_all add: s_def)
    have "take p mm = take ((p - s) + s) mm" using s by simp
    also have "\<dots> = take (p - s) mm @ chunk"
      unfolding chunk_def by (rule take_add)
    finally have tk: "take p mm = take (p - s) mm @ chunk" .
    have "split nl (take p mm @ b) = split nl (take (p - s) mm @ hd S) @ tl S"
      unfolding S_def tk using split_append_carry [of nl "take (p - s) mm" "chunk @ b"] by simp
    then have em: "emitted py kw (rev (split nl (take p mm @ b)))
        = new @ emitted py kw (rev (split nl (take (p - s) mm @ hd S)))"
      by (simp add: new_def emitted_append)
    have step: "scan_backward py cfg n kw mm p b acc (length acc) log =
      (if n \<le> length acc + length new
         then Some (log @ [(p - s, s)], take n (acc @ new))
         else scan_backward py cfg n kw mm (p - s) (hd S) (acc @ new)
                (length (acc @ new)) (log @ [(p - s, s)]))"
      using False less.prems(1)
      by (simp add: scan_backward_step Let_def s_def [symmetric] chunk_def [symmetric]
            S_def [symmetric] new_def [symmetric])
    show ?thesis
    proof (cases "n \<le> length acc + length new")
      case True
      then show ?thesis
        using False s by (intro exI [of _ "[(p - s, s)]"]) (simp add: step em s_def)
    next
      case over: False
      have "p - s < p" using s by simp
      moreover have "length (acc @ new) < n" using over by simp
      moreover have "nl \<notin> set (hd S)" unfolding S_def by (rule hd_split_no_sep)
      ultimately obtain rs where
        rs: "scan_backward py cfg n kw mm (p - s) (hd S) (acc @ new) (length (acc @ new))
               (log @ [(p - s, s)])
             = Some ((log @ [(p - s, s)]) @ rs,
                     take n ((acc @ new) @ emitted py kw (rev (split nl (take (p - s) mm @ hd S)))))"
        and br: "backward_reads (CHUNK_SIZE cfg) (p - s) rs"
        using less.IH by blast
      show ?thesis
        using over rs br False s
        by (intro exI [of _ "(p - s, s) # rs"]) (simp add: step em s_def)
    qed
  qed
qed

section \<open>The scan of the streaming reader\<close>

lemma yield_lines_stop:
  "length buffer \<le> 1 \<or> n \<le> ly \<Longrightarrow> yield_lines py n kw buffer ly out = (buffer, ly, out)"
  by (subst yield_lines.simps) auto

lemma yield_lines_step:
  "ly < n \<Longrightarrow> yield_lines py n kw (x # y # ys) ly out =
     (if accepted py kw x then yield_lines py n kw (y # ys) (ly + 1) (out @ [normalize py x])
      else yield_lines py n kw (y # ys) ly out)"
  by (subst yield_lines.simps) (simp add: Let_def accepted_def normalize_def)

lemma yield_lines_result:
  assumes "length out \<le> n"
    and "yield_lines py n kw (frs @ [l]) (length out) out = (rest, ly, out')"
  shows "out' = take n (out @ emitted py kw frs) \<and> ly = length out'
       \<and> (length (out @ emitted py kw frs) < n \<longrightarrow> rest = [l])"
  using assms
proof (induction frs arbitrary: out)
  case Nil
  then show ?case by (auto simp: yield_lines_stop emitted_Nil)
next
  case (Cons x xs)
  obtain y ys where yys: "xs @ [l] = y # ys" by (cases "xs @ [l]") auto
  show ?case
  proof (cases "length out < n")
    case False
    with Cons.prems show ?thesis by (simp add: yield_lines_stop)
  next
    case True
    show ?thesis
    proof (cases "accepted py kw x")
      case acc: True
      have "yield_lines py n kw (xs @ [l]) (length (out @ [normalize py x])) (out @ [normalize py x])
              = (rest, ly, out')"
        using Cons.prems(2) True acc by (simp add: yys yield_lines_step)
      moreover have "length (out @ [normalize py x]) \<le> n" using True by simp
      ultimately show ?thesis
        using Cons.IH [of "out @ [normalize py x]"] acc by (simp add: emitted_Cons)
    next
      case False
      have "yield_lines py n kw (xs @ [l]) (length out) out = (rest, ly, out')"
        using Cons.prems(2) True False by (simp add: yys yield_lines_step)
      then show ?thesis
        using Cons.IH [OF Cons.prems(1)] False by (simp add: emitted_Cons)
    qed
  qed
qed

lemma stream_backward_stop:
  "p = 0 \<or> n \<le> ly \<Longrightarrow> stream_backward py cfg n kw f p buffer ly out log = Some (log, out)"
  by (subst stream_backward.simps) auto

lemma push_chunk_carry:
  "nl \<notin> set b \<Longrightarrow> push_chunk (split nl chunk) [b] = rev (split nl (chunk @ b))"
  by (simp add: push_chunk_def split_append_last)

lemma push_chunk_empty: "push_chunk (split nl chunk) [] = push_chunk (split nl chunk) [[]]"
  by (simp add: push_chunk_def split_not_Nil)

lemma stream_backward_empty_buffer:
  "stream_backward py cfg n kw f p [] ly out log = stream_backward py cfg n kw f p [[]] ly out log"
  apply (subst stream_backward.simps)
  apply (subst (2) stream_backward.simps)
  apply (simp only: Let_def push_chunk_empty)
  done

lemma stream_backward_result:
  assumes "0 < CHUNK_SIZE cfg" "length out \<le> n" "nl \<notin> set b"
  shows "\<exists>rs. stream_backward py cfg n kw f p [b] (length out) out log
           = Some (log @ rs, take n (out @ emitted py kw (rev (tl (split nl (take p f @ b))))))
         \<and> backward_reads (CHUNK_SIZE cfg) p rs"
  using assms(2,3)
proof (induction p arbitrary: b out log rule: less_induct)
  case (less p)
  show ?case
  proof (cases "p = 0 \<or> n \<le> length out")
    case True
    then show ?thesis
      using less.prems
      by (intro exI [of _ "[]"]) (auto simp: stream_backward_stop split_no_sep emitted_Nil)
  next
    case False
    then have p: "0 < p" and out: "length out < n" by simp_all
    define s where "s = min (CHUNK_SIZE cfg) p"
    define chunk where "chunk = take s (drop (p - s) f)"
    define S where "S = split nl (chunk @ b)"
    define new where "new = emitted py kw (rev (tl S))"
    have s: "0 < s" "s \<le> p" using p assms(1) by (simp_all add: s_def)
    have "take p f = take ((p - s) + s) f" using s by simp
    also have "\<dots> = take (p - s) f @ chunk"
      unfolding chunk_def by (rule take_add)
    finally have tk: "take p f = take (p - s) f @ chunk" .
    have "split nl (take p f @ b) = split nl (take (p - s) f @ hd S) @ tl S"
      unfolding S_def tk using split_append_carry [of nl "take (p - s) f" "chunk @ b"] by simp
    then have "tl (split nl (take p f @ b)) = tl (split nl (take (p - s) f @ hd S)) @ tl S"
      by (simp add: split_not_Nil)
    then have em: "emitted py kw (rev (tl (split nl (take p f @ b))))
        = new @ emitted py kw (rev (tl (split nl (take (p - s) f @ hd S))))"
      by (simp add: new_def emitted_append)
    have S_ne: "S \<noteq> []" unfolding S_def by (rule split_not_Nil)
    then have revS: "rev S = rev (tl S) @ [hd S]"
      by (cases S) simp_all
    obtain rest ly out' where
      y: "yield_lines py n kw (rev (tl S) @ [hd S]) (length out) out = (rest, ly, out')"
      by (cases "yield_lines py n kw (rev (tl S) @ [hd S]) (length out) out") auto
    from yield_lines_result [OF less.prems(1) y]
    have out': "out' = take n (out @ new)" and ly: "ly = length out'"
      and rest: "length (out @ new) < n \<longrightarrow> rest = [hd S]"
      by (simp_all add: new_def)
    have step: "stream_backward py cfg n kw f p [b] (length out) out log =
       stream_backward py cfg n kw f (p - s) rest ly out' (log @ [(p - s, s)])"
      using p out y
      by (subst stream_backward.simps)
         (simp add: Let_def s_def [symmetric] chunk_def [symmetric]
            push_chunk_carry [OF less.prems(2)] S_def [symmetric] revS)
    show ?thesis
    proof (cases "length (out @ new) < n")
      case True
      then have o: "out' = out @ new" and r: "rest = [hd S]" "ly = length (out @ new)"
        using out' rest ly by simp_all
      have "p - s < p" using s by simp
      moreover have "length (out @ new) \<le> n" using True by simp
      moreover have "nl \<notin> set (hd S)" unfolding S_def by (rule hd_split_no_sep)
      ultimately obtain rs where
        rs: "stream_backward py cfg n kw f (p - s) [hd S] (length (out @ new)) (out @ new)
               (log @ [(p - s, s)])
             = Some ((log @ [(p - s, s)]) @ rs,
                 take n ((out @ new) @ emitted py kw (rev (tl (split nl (take (p - s) f @ hd S))))))"
        and br: "backward_reads (CHUNK_SIZE cfg) (p - s) rs"
        using less.IH by blast
      show ?thesis
        using rs br p s
        by (intro exI [of _ "(p - s, s) # rs"]) (simp add: step o r em s_def)
    next
      case False
      then have "n \<le> ly" using out' ly by simp
      then have "stream_backward py cfg n kw f (p - s) rest ly out' (log @ [(p - s, s)])
                  = Some (log @ [(p - s, s)], out')"
        by (simp add: stream_backward_stop)
      then show ?thesis
        using False p s out'
        by (intro exI [of _ "[(p - s, s)]"]) (simp add: step em s_def)
    qed
  qed
qed

section \<open>Lines and their offsets\<close>

lemma map_snd_with_offsets: "map snd (with_offsets k ls) = ls"
  by (induction ls arbitrary: k) auto

lemma with_offsets_lower: "(off, frag) \<in> set (with_offsets k ls) \<Longrightarrow> k \<le> off"
  by (induction ls arbitrary: k) fastforce+

lemma with_offsets_increasing:
  "sorted_wrt (\<lambda>a b. fst a < fst b) (with_offsets k ls)"
proof (induction ls arbitrary: k)
  case Nil
  show ?case by simp
next
  case (Cons l ls)
  have "\<forall>x \<in> set (with_offsets (k + length l + 1) ls). k < fst x"
    using with_offsets_lower [of _ _ "k + length l + 1" ls] by fastforce
  then show ?case using Cons.IH by simp
qed

lemma with_offsets_shift:
  "with_offsets (Suc k) ls = map (\<lambda>(off, l). (Suc off, l)) (with_offsets k ls)"
  by (induction ls arbitrary: k) auto

lemma with_offsets_split_valid:
  "(off, frag) \<in> set (with_offsets 0 (split c xs))
     \<Longrightarrow> off + length frag \<le> length xs \<and> take (length frag) (drop off xs) = frag"
proof (induction xs arbitrary: off frag)
  case Nil
  then show ?case by simp
next
  case (Cons x xs)
  show ?case
  proof (cases "x = c")
    case True
    with Cons.prems have "(off, frag) = (0, []) \<or> (off, frag) \<in> set (with_offsets (Suc 0) (split c xs))"
      by simp
    then show ?thesis
    proof
      assume "(off, frag) = (0, [])"
      then show ?thesis by simp
    next
      assume "(off, frag) \<in> set (with_offsets (Suc 0) (split c xs))"
      then obtain off' where "off = Suc off'" "(off', frag) \<in> set (with_offsets 0 (split c xs))"
        by (auto simp: with_offsets_shift [of 0])
      with Cons.IH show ?thesis by simp
    qed
  next
    case False
    obtain l ls where sp: "split c xs = l # ls"
      using split_not_Nil [of c xs] by (cases "split c xs") auto
    have hd_valid: "length l \<le> length xs \<and> take (length l) xs = l"
      using Cons.IH [of 0 l] by (simp add: sp)
    from Cons.prems False sp
    have "(off, frag) = (0, x # l) \<or> (off, frag) \<in> set (with_offsets (Suc (Suc (length l))) ls)"
      by simp
    then show ?thesis
    proof
      assume "(off, frag) = (0, x # l)"
      then show ?thesis using hd_valid by simp
    next
      assume "(off, frag) \<in> set (with_offsets (Suc (Suc (length l))) ls)"
      then obtain off' where off': "off = Suc off'"
        and "(off', frag) \<in> set (with_offsets (Suc (length l)) ls)"
        by (auto simp: with_offsets_shift [of "Suc (length l)"])
      then have "(off', frag) \<in> set (with_offsets 0 (split c xs))"
        by (simp add: sp)
      with Cons.IH off' show ?thesis by simp
    qed
  qed
qed

lemma emitted_spans:
  "emitted py kw (map snd spans) = map (\<lambda>(off, line). normalize py line)
       (filter (\<lambda>(off, line). accepted py kw line) spans)"
  by (induction spans) (auto simp: emitted_def)

lemma take_emitted_selected:
  "take n (emitted py kw (map snd spans))
     = map (\<lambda>(off, line). normalize py line) (selected py n kw spans)"
  by (simp add: emitted_spans selected_def take_map)

lemma sorted_wrt_selected:
  "sorted_wrt R spans \<Longrightarrow> sorted_wrt R (selected py n kw spans)"
  unfolding selected_def
  by (intro sorted_wrt_take sorted_wrt_filter)

lemma set_selected: "set (selected py n kw spans) \<subseteq> set spans"
  unfolding selected_def by (meson filter_is_subset order_trans set_take_subset)

lemma line_spans_decreasing:
  "sorted_wrt (\<lambda>a b. fst b < fst a) (rev (line_spans content))"
  by (simp add: sorted_wrt_rev line_spans_def with_offsets_increasing)

lemma line_spans_tl_decreasing:
  "sorted_wrt (\<lambda>a b. fst b < fst a) (rev (tl (line_spans content)))"
  using with_offsets_increasing [of 0 "split nl content"]
  by (cases "line_spans content") (auto simp: sorted_wrt_rev line_spans_def)

section \<open>The two readers on a regular file\<close>

lemma scan_backward_lines:
  assumes "0 < CHUNK_SIZE cfg"
  shows "\<exists>rs. scan_backward py cfg n kw content (length content) [] [] 0 []
           = Some (rs, take n (emitted py kw (rev (split nl content))))
         \<and> backward_reads (CHUNK_SIZE cfg) (length content) rs"
proof (cases "n = 0")
  case True
  then show ?thesis
    by (intro exI [of _ "[]"], subst scan_backward.simps) (simp add: remaining_buffer_def)
next
  case False
  then have "length ([]::string list) < n" by simp
  from scan_backward_result [OF assms this, of "[]" py kw content "length content" "[]"]
  show ?thesis by simp
qed

lemma stream_backward_lines:
  assumes "0 < CHUNK_SIZE cfg"
  shows "\<exists>rs. stream_backward py cfg n kw content (length content) [] 0 [] []
           = Some (rs, take n (emitted py kw (rev (tl (split nl content)))))
         \<and> backward_reads (CHUNK_SIZE cfg) (length content) rs"
  using stream_backward_result [OF assms, of "[]" n "[]" py kw content "length content" "[]"]
  by (simp add: stream_backward_empty_buffer)

lemma eager_general_path:
  assumes "0 < CHUNK_SIZE cfg" "CHUNK_SIZE cfg * 10 \<le> length content"
    "length content \<le> MAX_FILE_SIZE cfg"
  shows "\<exists>rs. read_last_n_lines_efficient py cfg (Regular content) n kw
           = Some (rs, Inr (take n (emitted py kw (rev (split nl content)))))
         \<and> backward_reads (CHUNK_SIZE cfg) (length content) rs"
proof -
  obtain rs where "scan_backward py cfg n kw content (length content) [] [] 0 []
           = Some (rs, take n (emitted py kw (rev (split nl content))))"
     "backward_reads (CHUNK_SIZE cfg) (length content) rs"
    using scan_backward_lines [OF assms(1)] by blast
  moreover have "content \<noteq> []" using assms(1,2) by auto
  ultimately show ?thesis
    using assms by (intro exI [of _ rs]) (simp add: read_last_n_lines_efficient_def)
qed

lemma streaming_result:
  assumes "0 < CHUNK_SIZE cfg" "content \<noteq> []" "length content \<le> MAX_FILE_SIZE cfg"
  shows "\<exists>rs. read_last_n_lines_streaming py cfg (Regular content) n kw
           = Some (rs, Inr (take n (emitted py kw (rev (tl (split nl content))))))
         \<and> backward_reads (CHUNK_SIZE cfg) (length content) rs"
proof -
  obtain rs where "stream_backward py cfg n kw content (length content) [] 0 [] []
           = Some (rs, take n (emitted py kw (rev (tl (split nl content)))))"
     "backward_reads (CHUNK_SIZE cfg) (length content) rs"
    using stream_backward_lines [OF assms(1)] by blast
  then show ?thesis
    using assms by (intro exI [of _ rs]) (simp add: read_last_n_lines_streaming_def)
qed

lemma eager_fast_path:
  assumes "content \<noteq> []" "length content < CHUNK_SIZE cfg * 10"
    "length content \<le> MAX_FILE_SIZE cfg"
  shows "read_last_n_lines_efficient py cfg (Regular content) n kw
           = Some ([(0, length content)], Inr (small_file py n kw content))"
  using assms by (simp add: read_last_n_lines_efficient_def)

lemma str_in_Nil: "str_in [] s"
  by (cases s) simp_all

lemma keyword_ok_empty: "lower py [] = [] \<Longrightarrow> keyword_ok py (Some []) line"
  by (simp add: keyword_ok_def str_in_Nil)

lemma emitted_empty_keyword: "lower py [] = [] \<Longrightarrow> emitted py (Some []) frs = emitted py None frs"
proof -
  assume "lower py [] = []"
  then have "accepted py (Some []) = accepted py None"
    by (intro ext) (simp add: accepted_def keyword_ok_def str_in_Nil)
  then show ?thesis by (simp add: emitted_def)
qed

lemma rev_last_n: "0 < n \<Longrightarrow> rev (last_n n xs) = take n (rev xs)"
  by (cases "n \<le> length xs") (simp_all add: last_n_def rev_drop)

lemma small_file_filter:
  assumes "0 < n" "lower py [] = []"
  shows "small_file py n kw content
     = take n (filter (keyword_ok py kw) (rev (readlines (universal_newlines (decode py content)))))"
proof (cases kw)
  case None
  then show ?thesis using assms(1) by (simp add: small_file_def rev_last_n keyword_ok_def)
next
  case (Some k)
  show ?thesis
  proof (cases "k = []")
    case True
    then show ?thesis
      using assms Some by (simp add: small_file_def rev_last_n keyword_ok_empty)
  next
    case False
    have "keyword_ok py (Some k) = (\<lambda>line. str_in (lower py k) (lower py line))"
      by (rule ext) (simp add: keyword_ok_def)
    then show ?thesis
      using assms(1) Some False by (simp add: small_file_def rev_last_n rev_filter)
  qed
qed

lemma emitted_candidates:
  "emitted py kw frs = filter (keyword_ok py kw)
      (filter (\<lambda>l. l \<noteq> []) (map (normalize py) (filter (\<lambda>l. l \<noteq> []) frs)))"
  by (induction frs) (auto simp: emitted_def accepted_def)

lemma eager_candidates:
  assumes "0 < CHUNK_SIZE cfg" "content \<noteq> []" "length content \<le> MAX_FILE_SIZE cfg"
    "0 < n" "lower py [] = []"
  shows "\<exists>log. read_last_n_lines_efficient py cfg (Regular content) n kw
     = Some (log, Inr (take n (filter (keyword_ok py kw) (rev (candidate_lines py cfg content)))))"
proof (cases "length content < CHUNK_SIZE cfg * 10")
  case True
  then show ?thesis
    using eager_fast_path [OF assms(2) True assms(3), of py n kw] small_file_filter [OF assms(4,5)]
    by (simp add: candidate_lines_def)
next
  case False
  then have ge: "CHUNK_SIZE cfg * 10 \<le> length content" by simp
  have "emitted py kw (rev (split nl content))
      = filter (keyword_ok py kw) (rev (candidate_lines py cfg content))"
    using False by (simp add: candidate_lines_def emitted_candidates rev_filter rev_map)
  then show ?thesis
    using eager_general_path [OF assms(1) ge assms(3), of py n kw] by auto
qed

lemma small_file_empty_keyword: "small_file py n (Some []) content = small_file py n None content"
  by (simp add: small_file_def)

lemma eager_returns_same:
  assumes "lower py [] = []" "0 < CHUNK_SIZE cfg"
  shows "\<exists>r. map_option snd (read_last_n_lines_efficient py cfg filepath n (Some [])) = Some r
           \<and> map_option snd (read_last_n_lines_efficient py cfg filepath n None) = Some r"
proof (cases filepath)
  case Absent
  then show ?thesis by (simp add: read_last_n_lines_efficient_def)
next
  case (Directory d)
  then show ?thesis by (simp add: read_last_n_lines_efficient_def)
next
  case (Regular content)
  show ?thesis
  proof (cases "content = [] \<or> MAX_FILE_SIZE cfg < length content")
    case True
    then show ?thesis using Regular by (auto simp: read_last_n_lines_efficient_def Let_def)
  next
    case False
    then have ne: "content \<noteq> []" and le: "length content \<le> MAX_FILE_SIZE cfg" by simp_all
    show ?thesis
    proof (cases "length content < CHUNK_SIZE cfg * 10")
      case True
      show ?thesis
        unfolding Regular
        by (simp add: eager_fast_path [OF ne True le] small_file_empty_keyword)
    next
      case False
      then have ge: "CHUNK_SIZE cfg * 10 \<le> length content" by simp
      show ?thesis
        unfolding Regular
        using eager_general_path [OF assms(2) ge le, of py n "Some []"]
          eager_general_path [OF assms(2) ge le, of py n None]
        by (auto simp: emitted_empty_keyword [OF assms(1)])
    qed
  qed
qed

lemma streaming_returns_same:
  assumes "lower py [] = []" "0 < CHUNK_SIZE cfg"
  shows "\<exists>s. map_option snd (read_last_n_lines_streaming py cfg filepath n (Some [])) = Some s
           \<and> map_option snd (read_last_n_lines_streaming py cfg filepath n None) = Some s"
proof (cases filepath)
  case Absent
  then show ?thesis by (simp add: read_last_n_lines_streaming_def)
next
  case (Directory d)
  then show ?thesis by (simp add: read_last_n_lines_streaming_def)
next
  case (Regular content)
  show ?thesis
  proof (cases "content = [] \<or> MAX_FILE_SIZE cfg < length content")
    case True
    then show ?thesis using Regular by (auto simp: read_last_n_lines_streaming_def Let_def)
  next
    case False
    then have ne: "content \<noteq> []" and le: "length content \<le> MAX_FILE_SIZE cfg" by simp_all
    show ?thesis
      unfolding Regular
      using streaming_result [OF assms(2) ne le, of py n "Some []"]
        streaming_result [OF assms(2) ne le, of py n None]
      by (auto simp: emitted_empty_keyword [OF assms(1)])
  qed
qed

section \<open>Read logs\<close>

lemma backward_reads_ConsD:
  "backward_reads c pos ((p, s) # rest)
     \<Longrightarrow> 0 < pos \<and> s = min c pos \<and> p = pos - s \<and> backward_reads c p rest"
  unfolding backward_reads.simps by assumption

lemma backward_reads_bounds:
  "backward_reads c pos log \<Longrightarrow> \<forall>(p, s) \<in> set log. p + s \<le> pos \<and> s = min c (p + s)"
proof (induction log arbitrary: pos)
  case Nil
  show ?case by simp
next
  case (Cons r log)
  obtain p s where r: "r = (p, s)" by (cases r)
  from backward_reads_ConsD [OF Cons.prems [unfolded r]]
  have st: "0 < pos" "s = min c pos" "p = pos - s" and rest: "backward_reads c p log"
    by blast+
  from Cons.IH [OF rest] have "\<forall>(p', s') \<in> set log. p' + s' \<le> pos \<and> s' = min c (p' + s')"
    using st by fastforce
  moreover have "p + s \<le> pos \<and> s = min c (p + s)" using st by auto
  ultimately show ?case by (simp add: r)
qed

lemma backward_reads_disjoint:
  "backward_reads c pos log \<Longrightarrow> sorted_wrt (\<lambda>(p, s) (p', s'). p' + s' \<le> p) log"
proof (induction log arbitrary: pos)
  case Nil
  show ?case by simp
next
  case (Cons r log)
  obtain p s where r: "r = (p, s)" by (cases r)
  from backward_reads_ConsD [OF Cons.prems [unfolded r]]
  have rest: "backward_reads c p log" by blast
  from backward_reads_bounds [OF rest] have "\<forall>(p', s') \<in> set log. p' + s' \<le> p" by fastforce
  then show ?case using Cons.IH [OF rest] by (auto simp: r)
qed

lemma backward_reads_progress:
  "0 < c \<Longrightarrow> backward_reads c pos log \<Longrightarrow> \<forall>(p, s) \<in> set log. 0 < s"
proof (induction log arbitrary: pos)
  case Nil
  show ?case by simp
next
  case (Cons r log)
  obtain p s where r: "r = (p, s)" by (cases r)
  from backward_reads_ConsD [OF Cons.prems(2) [unfolded r]]
  have st: "0 < pos" "s = min c pos" and rest: "backward_reads c p log" by blast+
  from st Cons.prems(1) have s: "0 < s" by simp
  show ?case using s Cons.IH [OF Cons.prems(1) rest] by (simp add: r)
qed

lemma line_spans_valid:
  "(off, line) \<in> set (line_spans content)
     \<Longrightarrow> off + length line \<le> length content \<and> take (length line) (drop off content) = line"
  unfolding line_spans_def by (rule with_offsets_split_valid)

lemma map_snd_line_spans: "map snd (line_spans content) = split nl content"
  by (simp add: line_spans_def map_snd_with_offsets)

lemma scan_invariantsI:
  assumes "0 < c" "backward_reads c (length content) log"
    and "sorted_wrt (\<lambda>a b. fst b < fst a) spans" "set spans \<subseteq> set (line_spans content)"
  shows "scan_invariants c content log (selected py n kw spans)"
proof -
  have "\<forall>(p, s) \<in> set log. p + s \<le> length content \<and> s = min c (p + s) \<and> 0 < s"
    using backward_reads_bounds [OF assms(2)] backward_reads_progress [OF assms(1,2)]
    by fastforce
  moreover have "\<forall>(off, line) \<in> set (selected py n kw spans).
            off + length line \<le> length content \<and> take (length line) (drop off content) = line"
    using set_selected [of py n kw spans] assms(4) line_spans_valid [of _ _ content] by blast
  ultimately show ?thesis
    unfolding scan_invariants_def
    using assms(2) backward_reads_disjoint [OF assms(2)] sorted_wrt_selected [OF assms(3)]
    by blast
qed

section \<open>Errors and empty files\<close>

text \<open>
  C10. For every \<open>n\<close>, every keyword and every configuration, the streaming reader on an
  existing empty file yields no value and raises no error, and it makes no read: it
  returns at the test \<^verbatim>\<open>file_size == 0\<close>, before the size-limit check.
\<close>

theorem streaming_empty_file:
  "read_last_n_lines_streaming py cfg (Regular []) n keyword = Some ([], Inr [])"
  by (simp add: read_last_n_lines_streaming_def)

text \<open>
  C6. When the size of an existing path exceeds \<^verbatim>\<open>MAX_FILE_SIZE\<close>, both readers raise
  the size-limit error (\<^verbatim>\<open>ValueError\<close>) and have made no read.
\<close>

theorem size_limit_exceeded:
  assumes "exists_path filepath" and "MAX_FILE_SIZE cfg < st_size filepath"
  shows "read_last_n_lines_efficient py cfg filepath n keyword = Some ([], Inl ValueError)
       \<and> read_last_n_lines_streaming py cfg filepath n keyword = Some ([], Inl ValueError)"
  using assms
  by (simp add: read_last_n_lines_efficient_def read_last_n_lines_streaming_def)

theorem size_limit_exceeded_witness:
  "exists_path (Regular ''abcd'')
   \<and> MAX_FILE_SIZE \<lparr>CHUNK_SIZE = 2, MAX_FILE_SIZE = 3\<rparr> < st_size (Regular ''abcd'')
   \<and> read_last_n_lines_efficient ascii_py \<lparr>CHUNK_SIZE = 2, MAX_FILE_SIZE = 3\<rparr>
         (Regular ''abcd'') 1 None = Some ([], Inl ValueError)
   \<and> read_last_n_lines_streaming ascii_py \<lparr>CHUNK_SIZE = 2, MAX_FILE_SIZE = 3\<rparr>
         (Regular ''abcd'') 1 None = Some ([], Inl ValueError)"
  using size_limit_exceeded
    [of "Regular ''abcd''" "\<lparr>CHUNK_SIZE = 2, MAX_FILE_SIZE = 3\<rparr>" ascii_py 1 None]
  by simp

text \<open>
  C7, as amended. The eager reader fails with the not-found error exactly when the path
  does not exist. On such a path the outcome of the call is that error itself, raised
  before any read: the reader hands it to its caller as it is and produces no other
  error there. The streaming reader does the same.
\<close>

theorem not_found_iff_absent:
  "((\<exists>log. read_last_n_lines_efficient py cfg filepath n keyword
               = Some (log, Inl FileNotFoundError))
        \<longleftrightarrow> filepath = Absent)
   \<and> read_last_n_lines_efficient py cfg Absent n keyword = Some ([], Inl FileNotFoundError)
   \<and> ((\<exists>log. read_last_n_lines_streaming py cfg filepath n keyword
               = Some (log, Inl FileNotFoundError))
        \<longleftrightarrow> filepath = Absent)
   \<and> read_last_n_lines_streaming py cfg Absent n keyword = Some ([], Inl FileNotFoundError)"
proof (intro conjI)
  show "(\<exists>log. read_last_n_lines_efficient py cfg filepath n keyword
               = Some (log, Inl FileNotFoundError))
        \<longleftrightarrow> filepath = Absent"
    by (cases filepath)
       (auto simp: read_last_n_lines_efficient_def Let_def split: if_splits prod.splits)
  show "read_last_n_lines_efficient py cfg Absent n keyword = Some ([], Inl FileNotFoundError)"
    by (simp add: read_last_n_lines_efficient_def)
  show "(\<exists>log. read_last_n_lines_streaming py cfg filepath n keyword
               = Some (log, Inl FileNotFoundError))
        \<longleftrightarrow> filepath = Absent"
    by (cases filepath)
       (auto simp: read_last_n_lines_streaming_def Let_def split: if_splits prod.splits)
  show "read_last_n_lines_streaming py cfg Absent n keyword = Some ([], Inl FileNotFoundError)"
    by (simp add: read_last_n_lines_streaming_def)
qed

theorem not_found_iff_absent_witness:
  "read_last_n_lines_efficient ascii_py default_config Absent 1 None
     = Some ([], Inl FileNotFoundError)
   \<and> read_last_n_lines_streaming ascii_py default_config Absent 1 None
     = Some ([], Inl FileNotFoundError)"
  using not_found_iff_absent [of ascii_py default_config Absent 1 None]
  by blast

text \<open>
  C7, as stated, at a directory of size 4096. The path exists and is not a regular file;
  the test \<^verbatim>\<open>filepath.exists()\<close> passes, the size tests pass, and the call fails when
  the file is opened, with \<^verbatim>\<open>IsADirectoryError\<close> and not with the not-found error.
\<close>

theorem directory_is_not_not_found:
  "read_last_n_lines_efficient ascii_py default_config (Directory 4096) 1 None
     = Some ([], Inl IsADirectoryError)
   \<and> read_last_n_lines_efficient ascii_py default_config (Directory 4096) 1 None
     \<noteq> Some ([], Inl FileNotFoundError)"
  by (simp add: read_last_n_lines_efficient_def default_config_def)

section \<open>The fast path and the first line of the stream\<close>

text \<open>
  C1 at a file of five bytes, lines \<^verbatim>\<open>a\<close>, an empty line and \<^verbatim>\<open>b\<close>, with \<open>n = 3\<close> and no
  keyword. The fast path returns three lines, each with its terminator, the empty line
  among them; the non-empty trimmed lines, newest first, are \<^verbatim>\<open>b\<close> and \<^verbatim>\<open>a\<close>, which is
  what the general path returns for a file of this content (\<open>eager_general_path\<close>).
\<close>

theorem fast_path_keeps_terminators_and_blank_lines:
  "read_last_n_lines_efficient ascii_py default_config
       (Regular ''a\<newline>\<newline>b\<newline>'') 3 None
     = Some ([(0, 5)], Inr [''b\<newline>'', ''\<newline>'', ''a\<newline>''])
   \<and> take 3 (emitted ascii_py None (rev (split nl ''a\<newline>\<newline>b\<newline>''))) = [''b'', ''a'']"
proof
  show "read_last_n_lines_efficient ascii_py default_config
       (Regular ''a\<newline>\<newline>b\<newline>'') 3 None
     = Some ([(0, 5)], Inr [''b\<newline>'', ''\<newline>'', ''a\<newline>''])"
    by (simp add: read_last_n_lines_efficient_def default_config_def small_file_def
          last_n_def ascii_eval)
  show "take 3 (emitted ascii_py None (rev (split nl ''a\<newline>\<newline>b\<newline>''))) = [''b'', ''a'']"
    by (simp add: spec_eval ascii_eval)
qed

text \<open>
  C2 at the file \<^verbatim>\<open>hello\n\<close> with \<open>n = 1\<close> and no keyword: the eager reader returns one
  line, the streaming reader yields nothing.
\<close>

theorem streaming_differs_from_eager:
  "read_last_n_lines_efficient ascii_py default_config (Regular ''hello\<newline>'') 1 None
     = Some ([(0, 6)], Inr [''hello\<newline>''])
   \<and> read_last_n_lines_streaming ascii_py default_config (Regular ''hello\<newline>'') 1 None
     = Some ([(0, 6)], Inr [])"
proof
  show "read_last_n_lines_efficient ascii_py default_config (Regular ''hello\<newline>'') 1 None
     = Some ([(0, 6)], Inr [''hello\<newline>''])"
    by (simp add: read_last_n_lines_efficient_def default_config_def small_file_def
          last_n_def ascii_eval)
  show "read_last_n_lines_streaming ascii_py default_config (Regular ''hello\<newline>'') 1 None
     = Some ([(0, 6)], Inr [])"
    apply (simp add: read_last_n_lines_streaming_def default_config_def)
    apply (subst stream_backward.simps)
    apply (simp add: push_chunk_def nl_def yield_lines.simps)
    apply (subst stream_backward.simps)
    apply simp
    done
qed

text \<open>
  C3 at the file \<^verbatim>\<open>first\nsecond\<close> (no trailing delimiter) with \<open>n = 5\<close> and no keyword:
  the scan of the streaming reader reaches position 0 with four values still to yield,
  and ends with the carry buffer \<^verbatim>\<open>first\<close> never yielded. The accepted lines of the
  file, newest first, are \<^verbatim>\<open>second\<close> and \<^verbatim>\<open>first\<close>.
\<close>

theorem streaming_drops_carry_buffer:
  "read_last_n_lines_streaming ascii_py default_config (Regular ''first\<newline>second'') 5 None
     = Some ([(0, 12)], Inr [''second''])
   \<and> take 5 (emitted ascii_py None (rev (split nl ''first\<newline>second''))) = [''second'', ''first'']"
proof
  show "read_last_n_lines_streaming ascii_py default_config (Regular ''first\<newline>second'') 5 None
     = Some ([(0, 12)], Inr [''second''])"
    apply (simp add: read_last_n_lines_streaming_def default_config_def)
    apply (subst stream_backward.simps)
    apply (simp add: push_chunk_def ascii_eval keyword_ok_def yield_lines.simps)
    apply (subst stream_backward.simps)
    apply simp
    done
  show "take 5 (emitted ascii_py None (rev (split nl ''first\<newline>second''))) = [''second'', ''first'']"
    by (simp add: spec_eval ascii_eval)
qed

section \<open>Chunk boundaries\<close>

text \<open>
  Neither scan depends on the chunk size. For every chunk size above 0 and every
  non-empty file within the size limit, each scan returns what it returns when one chunk
  covers the whole file. The eager scan gives the first \<open>n\<close> accepted lines of the file
  split at the delimiter, newest first, each the normalized text of a whole raw line. The
  streaming scan gives the same for the file without its first raw line.
\<close>

lemma scans_independent_of_chunk_size:
  assumes "0 < CHUNK_SIZE cfg" and "content \<noteq> []" and "length content \<le> MAX_FILE_SIZE cfg"
  shows "map_option snd (scan_backward py cfg n keyword content (length content) [] [] 0 [])
       = Some (take n (emitted py keyword (rev (split nl content))))
    \<and> map_option snd (scan_backward py cfg n keyword content (length content) [] [] 0 [])
       = map_option snd (scan_backward py (cfg\<lparr>CHUNK_SIZE := length content\<rparr>) n keyword
            content (length content) [] [] 0 [])
    \<and> map_option snd (stream_backward py cfg n keyword content (length content) [] 0 [] [])
       = Some (take n (emitted py keyword (rev (tl (split nl content)))))
    \<and> map_option snd (stream_backward py cfg n keyword content (length content) [] 0 [] [])
       = map_option snd (stream_backward py (cfg\<lparr>CHUNK_SIZE := length content\<rparr>) n keyword
            content (length content) [] 0 [] [])
    \<and> map_option snd (read_last_n_lines_streaming py cfg (Regular content) n keyword)
       = map_option snd (read_last_n_lines_streaming py (cfg\<lparr>CHUNK_SIZE := length content\<rparr>)
            (Regular content) n keyword)
    \<and> (CHUNK_SIZE cfg * 10 \<le> length content \<longrightarrow>
         map_option snd (read_last_n_lines_efficient py cfg (Regular content) n keyword)
           = Some (Inr (take n (emitted py keyword (rev (split nl content))))))"
proof -
  have one: "0 < CHUNK_SIZE (cfg\<lparr>CHUNK_SIZE := length content\<rparr>)"
    using assms(2) by simp
  have le: "length content \<le> MAX_FILE_SIZE (cfg\<lparr>CHUNK_SIZE := length content\<rparr>)"
    using assms(3) by simp
  have scans: "map_option snd (scan_backward py cfg n keyword content (length content) [] [] 0 [])
       = Some (take n (emitted py keyword (rev (split nl content))))
    \<and> map_option snd (scan_backward py cfg n keyword content (length content) [] [] 0 [])
       = map_option snd (scan_backward py (cfg\<lparr>CHUNK_SIZE := length content\<rparr>) n keyword
            content (length content) [] [] 0 [])
    \<and> map_option snd (stream_backward py cfg n keyword content (length content) [] 0 [] [])
       = Some (take n (emitted py keyword (rev (tl (split nl content)))))
    \<and> map_option snd (stream_backward py cfg n keyword content (length content) [] 0 [] [])
       = map_option snd (stream_backward py (cfg\<lparr>CHUNK_SIZE := length content\<rparr>) n keyword
            content (length content) [] 0 [] [])"
    using scan_backward_lines [OF assms(1), of py n keyword content]
      scan_backward_lines [OF one, of py n keyword content]
      stream_backward_lines [OF assms(1), of py n keyword content]
      stream_backward_lines [OF one, of py n keyword content]
    by auto
  have streaming: "map_option snd (read_last_n_lines_streaming py cfg (Regular content) n keyword)
       = map_option snd (read_last_n_lines_streaming py (cfg\<lparr>CHUNK_SIZE := length content\<rparr>)
            (Regular content) n keyword)"
    using streaming_result [OF assms, of py n keyword]
      streaming_result [OF one assms(2) le, of py n keyword]
    by auto
  have eager: "CHUNK_SIZE cfg * 10 \<le> length content \<longrightarrow>
         map_option snd (read_last_n_lines_efficient py cfg (Regular content) n keyword)
           = Some (Inr (take n (emitted py keyword (rev (split nl content)))))"
  proof
    assume ge: "CHUNK_SIZE cfg * 10 \<le> length content"
    show "map_option snd (read_last_n_lines_efficient py cfg (Regular content) n keyword)
           = Some (Inr (take n (emitted py keyword (rev (split nl content)))))"
      using eager_general_path [OF assms(1) ge assms(3), of py n keyword] by auto
  qed
  from scans streaming eager show ?thesis by blast
qed

lemma scans_independent_of_chunk_size_example:
  "0 < CHUNK_SIZE cfg_chunk4
   \<and> log_four_lines \<noteq> []
   \<and> length log_four_lines \<le> MAX_FILE_SIZE cfg_chunk4
   \<and> CHUNK_SIZE cfg_chunk4 * 10 \<le> length log_four_lines
   \<and> map_option snd (scan_backward ascii_py cfg_chunk4 4 None
         log_four_lines (length log_four_lines) [] [] 0 [])
       = Some [''4th line end'', ''third'', ''second line is long'', ''first line'']
   \<and> map_option snd (stream_backward ascii_py cfg_chunk4 4 None
         log_four_lines (length log_four_lines) [] 0 [] [])
       = Some [''4th line end'', ''third'', ''second line is long'']
   \<and> map_option snd
         (read_last_n_lines_efficient ascii_py cfg_chunk4 (Regular log_four_lines) 4 None)
       = Some (Inr [''4th line end'', ''third'', ''second line is long'', ''first line''])"
proof -
  have h1: "0 < CHUNK_SIZE cfg_chunk4"
    by (simp add: example_eval)
  have h2: "log_four_lines \<noteq> []"
    by (simp add: example_eval)
  have h3: "length log_four_lines \<le> MAX_FILE_SIZE cfg_chunk4"
    by (simp add: example_eval)
  have h4: "CHUNK_SIZE cfg_chunk4 * 10 \<le> length log_four_lines"
    by (simp add: example_eval)
  have e1: "take 4 (emitted ascii_py None (rev (split nl log_four_lines)))
      = [''4th line end'', ''third'', ''second line is long'', ''first line'']"
    by (simp add: example_eval spec_eval ascii_eval)
  have e2: "take 4 (emitted ascii_py None (rev (tl (split nl log_four_lines))))
      = [''4th line end'', ''third'', ''second line is long'']"
    by (simp add: example_eval spec_eval ascii_eval)
  show ?thesis
    using scans_independent_of_chunk_size [OF h1 h2 h3, of ascii_py 4 None] h1 h2 h3 h4
    unfolding e1 e2 by blast
qed

lemma split_replicate_a: "split (CHR 0x0A) (replicate k (CHR ''a'')) = [replicate k (CHR ''a'')]"
  by (rule split_no_sep) simp

lemma split_line_then:
  "split (CHR 0x0A) (replicate k (CHR ''a'') @ CHR 0x0A # ys)
     = replicate k (CHR ''a'') # split (CHR 0x0A) ys"
  by (simp add: split_append_sep split_replicate_a)

lemma dropWhile_replicate_a:
  "dropWhile is_space (replicate (Suc k) (CHR ''a'')) = replicate (Suc k) (CHR ''a'')"
  by (simp add: is_space_def)

lemma strip_replicate_a:
  "ascii_strip (replicate (Suc k) (CHR ''a'')) = replicate (Suc k) (CHR ''a'')"
  by (simp only: ascii_strip_def dropWhile_replicate_a rev_replicate)

lemma decode_replicate_a: "ascii_decode (replicate k (CHR ''a'')) = replicate k (CHR ''a'')"
  by (simp add: ascii_decode_def)

lemma normalize_replicate_a:
  "normalize ascii_py (replicate 8200 (CHR ''a'')) = replicate 8200 (CHR ''a'')"
  using strip_replicate_a [of 8199]
  by (simp add: normalize_def ascii_py_def decode_replicate_a)

text \<open>
  C4 at a file of 8203 bytes, a first line of 8200 letters \<^verbatim>\<open>a\<close> followed by the line
  \<^verbatim>\<open>x\<close>, with \<open>n = 5\<close>, no keyword and the chunk size of the source. The streaming reader
  makes two reads, of the last 8192 bytes and of the first 11: the first line lies across
  both. It yields \<^verbatim>\<open>x\<close> alone: the line that spans the two reads is put together in
  the carry buffer and never yielded. The accepted lines of the file, newest first, are
  \<^verbatim>\<open>x\<close> and the whole first line.
\<close>

theorem streaming_loses_line_spanning_chunks:
  "read_last_n_lines_streaming ascii_py default_config
       (Regular (replicate 8200 (CHR ''a'') @ ''\<newline>x\<newline>'')) 5 None
     = Some ([(11, 8192), (0, 11)], Inr [''x''])
   \<and> take 5 (emitted ascii_py None
               (rev (split nl (replicate 8200 (CHR ''a'') @ ''\<newline>x\<newline>''))))
     = [''x'', replicate 8200 (CHR ''a'')]"
proof
  show "read_last_n_lines_streaming ascii_py default_config
       (Regular (replicate 8200 (CHR ''a'') @ ''\<newline>x\<newline>'')) 5 None
     = Some ([(11, 8192), (0, 11)], Inr [''x''])"
    apply (simp add: read_last_n_lines_streaming_def default_config_def)
    apply (subst stream_backward.simps)
    apply (simp add: nl_def split_line_then push_chunk_def yield_lines.simps ascii_eval
             keyword_ok_def)
    apply (subst stream_backward.simps)
    apply (simp add: nl_def split_replicate_a push_chunk_def yield_lines.simps)
    apply (subst stream_backward.simps)
    apply simp
    done
  have sp: "split nl (replicate 8200 (CHR ''a'') @ ''\<newline>x\<newline>'')
      = [replicate 8200 (CHR ''a''), ''x'', []]"
    by (simp add: nl_def split_line_then)
  have x: "normalize ascii_py ''x'' = ''x''"
    by (simp add: normalize_def ascii_eval)
  have ne: "replicate 8200 (CHR ''a'') \<noteq> []"
    by simp
  show "take 5 (emitted ascii_py None
               (rev (split nl (replicate 8200 (CHR ''a'') @ ''\<newline>x\<newline>''))))
     = [''x'', replicate 8200 (CHR ''a'')]"
    unfolding sp
    by (simp add: emitted_def accepted_def keyword_ok_def normalize_replicate_a x ne)
qed

section \<open>The keyword filter\<close>

text \<open>
  C5. For a regular, non-empty file within the size limit, \<open>n \<ge> 1\<close> and a chunk size
  above 0, the eager reader returns the first \<open>n\<close> lines, newest first, of the lines it
  tests (\<open>candidate_lines\<close>) that pass \<open>keyword_ok\<close>. So without a keyword every line
  passes; with a keyword \<open>k\<close> every returned line contains \<open>lower k\<close> in its own
  \<open>lower\<close> form; and when fewer than \<open>n\<close> lines are returned, every tested line that
  passes is among them, wherever the chunk boundaries fall. \<^verbatim>\<open>str.lower\<close> of the empty
  string is taken to be empty.
\<close>

theorem keyword_filter_exact:
  assumes "0 < CHUNK_SIZE cfg" and "content \<noteq> []" and "length content \<le> MAX_FILE_SIZE cfg"
    and "1 \<le> n" and "lower py [] = []"
  shows "\<exists>log result.
      read_last_n_lines_efficient py cfg (Regular content) n keyword = Some (log, Inr result)
    \<and> result = take n (filter (keyword_ok py keyword) (rev (candidate_lines py cfg content)))
    \<and> (keyword = None \<longrightarrow> result = take n (rev (candidate_lines py cfg content)))
    \<and> (\<forall>k. keyword = Some k \<longrightarrow> (\<forall>line \<in> set result. str_in (lower py k) (lower py line)))
    \<and> (length result < n \<longrightarrow>
         (\<forall>line \<in> set (candidate_lines py cfg content).
            keyword_ok py keyword line \<longrightarrow> line \<in> set result))"
proof -
  define result where
    "result = take n (filter (keyword_ok py keyword) (rev (candidate_lines py cfg content)))"
  from assms(4) have n: "0 < n" by simp
  obtain log where
    "read_last_n_lines_efficient py cfg (Regular content) n keyword = Some (log, Inr result)"
    using eager_candidates [OF assms(1-3) n assms(5), of keyword] unfolding result_def by blast
  moreover have "keyword = None \<longrightarrow> result = take n (rev (candidate_lines py cfg content))"
    by (simp add: result_def keyword_ok_def)
  moreover have "\<forall>k. keyword = Some k \<longrightarrow> (\<forall>line \<in> set result. str_in (lower py k) (lower py line))"
    unfolding result_def by (auto dest!: in_set_takeD simp: keyword_ok_def)
  moreover have "length result < n \<longrightarrow>
         (\<forall>line \<in> set (candidate_lines py cfg content).
            keyword_ok py keyword line \<longrightarrow> line \<in> set result)"
  proof
    assume "length result < n"
    then have "result = filter (keyword_ok py keyword) (rev (candidate_lines py cfg content))"
      unfolding result_def by (simp add: min_def split: if_splits)
    then show "\<forall>line \<in> set (candidate_lines py cfg content).
            keyword_ok py keyword line \<longrightarrow> line \<in> set result"
      by simp
  qed
  ultimately show ?thesis unfolding result_def by blast
qed

theorem keyword_filter_exact_witness:
  "0 < CHUNK_SIZE cfg_chunk2
   \<and> log_three_lines \<noteq> []
   \<and> length log_three_lines \<le> MAX_FILE_SIZE cfg_chunk2
   \<and> (1::nat) \<le> 5 \<and> lower ascii_py [] = []
   \<and> (\<exists>log. read_last_n_lines_efficient ascii_py cfg_chunk2
         (Regular log_three_lines) 5 (Some ''error'')
        = Some (log, Inr [''xERRORy'', ''Error one'']))"
proof -
  have h1: "0 < CHUNK_SIZE cfg_chunk2"
    by (simp add: example_eval)
  have h2: "log_three_lines \<noteq> []"
    by (simp add: example_eval)
  have h3: "length log_three_lines \<le> MAX_FILE_SIZE cfg_chunk2"
    by (simp add: example_eval)
  have h4: "(1::nat) \<le> 5"
    by simp
  have h5: "lower ascii_py [] = []" by (simp add: ascii_py_def)
  have e: "take 5 (filter (keyword_ok ascii_py (Some ''error''))
        (rev (candidate_lines ascii_py cfg_chunk2 log_three_lines)))
      = [''xERRORy'', ''Error one'']"
    by (simp add: example_eval candidate_lines_def spec_eval ascii_eval)
  show ?thesis
    using keyword_filter_exact [OF h1 h2 h3 h4 h5, of "Some ''error''"] h1 h2 h3 h4 h5
    unfolding e by blast
qed

section \<open>The cursor and the order of emission\<close>

text \<open>
  C8. For a regular, non-empty file within the size limit and a chunk size above 0, the
  streaming reader, and the eager reader on its general path (file of at least ten
  chunks), return with a read log and emitted lines that satisfy \<open>scan_invariants\<close>:
  the cursor starts at the file size and only decreases, stays between 0 and the file
  size, each read has size \<open>min CHUNK_SIZE position\<close>, no byte is read twice, and the
  lines are emitted in strictly decreasing order of byte offset.
\<close>

theorem scan_cursor_and_emission_order:
  assumes "0 < CHUNK_SIZE cfg" and "content \<noteq> []" and "length content \<le> MAX_FILE_SIZE cfg"
  shows "(\<exists>log sel.
            read_last_n_lines_streaming py cfg (Regular content) n keyword
              = Some (log, Inr (map (\<lambda>(off, line). normalize py line) sel))
          \<and> sel = selected py n keyword (rev (tl (line_spans content)))
          \<and> scan_invariants (CHUNK_SIZE cfg) content log sel)
       \<and> (CHUNK_SIZE cfg * 10 \<le> length content \<longrightarrow>
           (\<exists>log sel.
              read_last_n_lines_efficient py cfg (Regular content) n keyword
                = Some (log, Inr (map (\<lambda>(off, line). normalize py line) sel))
            \<and> sel = selected py n keyword (rev (line_spans content))
            \<and> scan_invariants (CHUNK_SIZE cfg) content log sel))"
proof
  obtain log where
    run: "read_last_n_lines_streaming py cfg (Regular content) n keyword
           = Some (log, Inr (take n (emitted py keyword (rev (tl (split nl content))))))"
    and br: "backward_reads (CHUNK_SIZE cfg) (length content) log"
    using streaming_result [OF assms] by blast
  have "rev (tl (split nl content)) = map snd (rev (tl (line_spans content)))"
    unfolding map_snd_line_spans [symmetric]
    by (cases "line_spans content") (simp_all add: rev_map)
  then have out: "take n (emitted py keyword (rev (tl (split nl content))))
      = map (\<lambda>(off, line). normalize py line)
          (selected py n keyword (rev (tl (line_spans content))))"
    by (simp only: take_emitted_selected)
  have sub: "set (rev (tl (line_spans content))) \<subseteq> set (line_spans content)"
    by (cases "line_spans content") auto
  show "\<exists>log sel.
            read_last_n_lines_streaming py cfg (Regular content) n keyword
              = Some (log, Inr (map (\<lambda>(off, line). normalize py line) sel))
          \<and> sel = selected py n keyword (rev (tl (line_spans content)))
          \<and> scan_invariants (CHUNK_SIZE cfg) content log sel"
    using run scan_invariantsI [OF assms(1) br line_spans_tl_decreasing sub, of py n keyword]
    unfolding out by blast
next
  show "CHUNK_SIZE cfg * 10 \<le> length content \<longrightarrow>
           (\<exists>log sel.
              read_last_n_lines_efficient py cfg (Regular content) n keyword
                = Some (log, Inr (map (\<lambda>(off, line). normalize py line) sel))
            \<and> sel = selected py n keyword (rev (line_spans content))
            \<and> scan_invariants (CHUNK_SIZE cfg) content log sel)"
  proof
    assume ge: "CHUNK_SIZE cfg * 10 \<le> length content"
    obtain log where
      run: "read_last_n_lines_efficient py cfg (Regular content) n keyword
             = Some (log, Inr (take n (emitted py keyword (rev (split nl content)))))"
      and br: "backward_reads (CHUNK_SIZE cfg) (length content) log"
      using eager_general_path [OF assms(1) ge assms(3)] by blast
    have "rev (split nl content) = map snd (rev (line_spans content))"
      unfolding map_snd_line_spans [symmetric] by (simp add: rev_map)
    then have out: "take n (emitted py keyword (rev (split nl content)))
        = map (\<lambda>(off, line). normalize py line)
            (selected py n keyword (rev (line_spans content)))"
      by (simp only: take_emitted_selected)
    have sub: "set (rev (line_spans content)) \<subseteq> set (line_spans content)" by simp
    show "\<exists>log sel.
              read_last_n_lines_efficient py cfg (Regular content) n keyword
                = Some (log, Inr (map (\<lambda>(off, line). normalize py line) sel))
            \<and> sel = selected py n keyword (rev (line_spans content))
            \<and> scan_invariants (CHUNK_SIZE cfg) content log sel"
      using run scan_invariantsI [OF assms(1) br line_spans_decreasing sub, of py n keyword]
      unfolding out by blast
  qed
qed

theorem scan_cursor_and_emission_order_witness:
  "0 < CHUNK_SIZE cfg_chunk2
   \<and> log_three_lines \<noteq> []
   \<and> length log_three_lines \<le> MAX_FILE_SIZE cfg_chunk2
   \<and> CHUNK_SIZE cfg_chunk2 * 10 \<le> length log_three_lines
   \<and> (\<exists>log. read_last_n_lines_streaming ascii_py cfg_chunk2
               (Regular log_three_lines) 2 None
             = Some (log, Inr [''xERRORy'', ''Error one''])
           \<and> scan_invariants 2 log_three_lines log
                [(15::nat, ''xERRORy''), (5, ''Error one'')])
   \<and> (\<exists>log. read_last_n_lines_efficient ascii_py cfg_chunk2
               (Regular log_three_lines) 2 None
             = Some (log, Inr [''xERRORy'', ''Error one''])
           \<and> scan_invariants 2 log_three_lines log
                [(15::nat, ''xERRORy''), (5, ''Error one'')])"
proof -
  have h1: "0 < CHUNK_SIZE cfg_chunk2"
    by (simp add: example_eval)
  have h2: "log_three_lines \<noteq> []"
    by (simp add: example_eval)
  have h3: "length log_three_lines \<le> MAX_FILE_SIZE cfg_chunk2"
    by (simp add: example_eval)
  have h4: "CHUNK_SIZE cfg_chunk2 * 10 \<le> length log_three_lines"
    by (simp add: example_eval)
  have c: "CHUNK_SIZE cfg_chunk2 = 2"
    by (simp add: example_eval)
  have s1: "selected ascii_py 2 None (rev (tl (line_spans log_three_lines)))
      = [(15::nat, ''xERRORy''), (5, ''Error one'')]"
    by (simp add: example_eval selected_def line_spans_def spec_eval ascii_eval)
  have s2: "selected ascii_py 2 None (rev (line_spans log_three_lines))
      = [(15::nat, ''xERRORy''), (5, ''Error one'')]"
    by (simp add: example_eval selected_def line_spans_def spec_eval ascii_eval)
  have m: "map (\<lambda>(off, line). normalize ascii_py line) [(15::nat, ''xERRORy''), (5, ''Error one'')]
      = [''xERRORy'', ''Error one'']"
    by (simp add: example_eval spec_eval ascii_eval)
  note t = scan_cursor_and_emission_order [OF h1 h2 h3, of ascii_py 2 None, unfolded s1 s2 c]
  from t obtain log1 where
    "read_last_n_lines_streaming ascii_py cfg_chunk2
        (Regular log_three_lines) 2 None
      = Some (log1, Inr (map (\<lambda>(off, line). normalize ascii_py line)
                 [(15::nat, ''xERRORy''), (5, ''Error one'')]))"
    "scan_invariants 2 log_three_lines log1
        [(15::nat, ''xERRORy''), (5, ''Error one'')]"
    by blast
  moreover from t h4 [unfolded c] obtain log2 where
    "read_last_n_lines_efficient ascii_py cfg_chunk2
        (Regular log_three_lines) 2 None
      = Some (log2, Inr (map (\<lambda>(off, line). normalize ascii_py line)
                 [(15::nat, ''xERRORy''), (5, ''Error one'')]))"
    "scan_invariants 2 log_three_lines log2
        [(15::nat, ''xERRORy''), (5, ''Error one'')]"
    by blast
  ultimately show ?thesis
    using h1 h2 h3 h4 unfolding m by blast
qed

section \<open>The empty keyword\<close>

text \<open>
  C9. For every path, every \<open>n\<close> and a chunk size above 0, each reader returns the same
  outcome for the empty-string keyword as for no keyword: on the fast path, on the
  general path and in the streaming reader. \<^verbatim>\<open>str.lower\<close> of the empty string is taken
  to be empty.
\<close>

theorem empty_keyword_is_no_keyword:
  assumes "lower py [] = []" and "0 < CHUNK_SIZE cfg"
  shows "\<exists>r s.
      map_option snd (read_last_n_lines_efficient py cfg filepath n (Some [])) = Some r
    \<and> map_option snd (read_last_n_lines_efficient py cfg filepath n None) = Some r
    \<and> map_option snd (read_last_n_lines_streaming py cfg filepath n (Some [])) = Some s
    \<and> map_option snd (read_last_n_lines_streaming py cfg filepath n None) = Some s"
  using eager_returns_same [OF assms, of filepath n] streaming_returns_same [OF assms, of filepath n]
  by blast

theorem empty_keyword_is_no_keyword_witness:
  "lower ascii_py [] = [] \<and> 0 < CHUNK_SIZE default_config
   \<and> (\<exists>r s.
      map_option snd (read_last_n_lines_efficient ascii_py default_config
          (Regular ''a\<newline>b\<newline>'') 1 (Some [])) = Some r
    \<and> map_option snd (read_last_n_lines_efficient ascii_py default_config
          (Regular ''a\<newline>b\<newline>'') 1 None) = Some r
    \<and> map_option snd (read_last_n_lines_streaming ascii_py default_config
          (Regular ''a\<newline>b\<newline>'') 1 (Some [])) = Some s
    \<and> map_option snd (read_last_n_lines_streaming ascii_py default_config
          (Regular ''a\<newline>b\<newline>'') 1 None) = Some s)"
proof -
  have h1: "lower ascii_py [] = []" by (simp add: ascii_py_def)
  have h2: "0 < CHUNK_SIZE default_config" by (simp add: default_config_def)
  show ?thesis
    using empty_keyword_is_no_keyword [OF h1 h2, of "Regular ''a\<newline>b\<newline>''" 1] h1 h2
    by blast
qed

end
